theory Spec2Isabelle
  imports Complex_Main
begin

section \<open>Python strings\<close>

text \<open>
  A Python \<open>str\<close> is modelled as a \<open>string\<close> of ASCII characters. The methods the
  agents use are \<open>str.lower\<close>, \<open>str.upper\<close>, \<open>str.strip\<close>, \<open>str.startswith\<close>,
  \<open>str.split("\n")\<close>, \<open>"\n".join\<close> and the substring test \<open>in\<close>. On ASCII text
  \<open>lower\<close> and \<open>upper\<close> map the 26 letters and leave every other character alone, and
  \<open>strip\<close> removes the characters for which \<open>str.isspace\<close> holds (code points 9 to 13,
  28 to 31 and 32).
\<close>

definition ascii_uppercase :: string where
  "ascii_uppercase = ''ABCDEFGHIJKLMNOPQRSTUVWXYZ''"

definition ascii_lowercase :: string where
  "ascii_lowercase = ''abcdefghijklmnopqrstuvwxyz''"

definition lower_char :: "char \<Rightarrow> char" where
  "lower_char c =
     (case map_of (zip ascii_uppercase ascii_lowercase) c of Some d \<Rightarrow> d | None \<Rightarrow> c)"

definition upper_char :: "char \<Rightarrow> char" where
  "upper_char c =
     (case map_of (zip ascii_lowercase ascii_uppercase) c of Some d \<Rightarrow> d | None \<Rightarrow> c)"

definition lower :: "string \<Rightarrow> string" where
  "lower s = map lower_char s"

definition upper :: "string \<Rightarrow> string" where
  "upper s = map upper_char s"

definition whitespace :: string where
  "whitespace =
     [CHR 0x09, CHR 0x0A, CHR 0x0B, CHR 0x0C, CHR 0x0D,
      CHR 0x1C, CHR 0x1D, CHR 0x1E, CHR 0x1F, CHR 0x20]"

definition isspace :: "char \<Rightarrow> bool" where
  "isspace c = (c \<in> set whitespace)"

definition lstrip :: "string \<Rightarrow> string" where
  "lstrip s = dropWhile isspace s"

definition rstrip :: "string \<Rightarrow> string" where
  "rstrip s = rev (dropWhile isspace (rev s))"

definition strip :: "string \<Rightarrow> string" where
  "strip s = rstrip (lstrip s)"

fun startswith :: "string \<Rightarrow> string \<Rightarrow> bool" where
  "startswith s [] = True"
| "startswith [] (p # ps) = False"
| "startswith (c # cs) (p # ps) = (c = p \<and> startswith cs ps)"

text \<open>\<open>py_in needle hay\<close> is Python's \<open>needle in hay\<close> on two strings.\<close>

fun py_in :: "string \<Rightarrow> string \<Rightarrow> bool" where
  "py_in needle [] = (needle = [])"
| "py_in needle (c # cs) = (startswith (c # cs) needle \<or> py_in needle cs)"

text \<open>
  \<open>split_nl s\<close> is \<open>s.split("\n")\<close>: the pieces between line feeds, always at least
  one piece. \<open>join_nl\<close> is \<open>"\n".join\<close>.
\<close>

fun split_nl :: "string \<Rightarrow> string list" where
  "split_nl [] = [[]]"
| "split_nl (c # cs) =
     (if c = CHR 0x0A then [] # split_nl cs
      else (case split_nl cs of [] \<Rightarrow> [[c]] | l # ls \<Rightarrow> (c # l) # ls))"

fun join_nl :: "string list \<Rightarrow> string" where
  "join_nl [] = []"
| "join_nl [l] = l"
| "join_nl (l # m # ls) = l @ CHR 0x0A # join_nl (m # ls)"

section \<open>Regulation detection (agents/router.py)\<close>

definition KNOWN_REGULATIONS :: "string list" where
  "KNOWN_REGULATIONS =
     [''SR 11-7'', ''NIST AI RMF'', ''ISO 42001'', ''NAIC Model Bulletin'',
      ''Colorado SB21-169'']"

text \<open>
  The dictionary \<open>patterns\<close> of \<open>detect_regulations\<close>, as an association list in
  insertion order, which is the order \<open>patterns.items()\<close> iterates in.
\<close>

definition patterns :: "(string \<times> string list) list" where
  "patterns =
     [(''SR 11-7'', [''sr 11-7'', ''sr11-7'', ''sr1107'', ''sr 1107'']),
      (''NIST AI RMF'', [''nist'', ''ai rmf'', ''ai 100-1'', ''ai100'']),
      (''ISO 42001'', [''iso 42001'', ''iso42001'']),
      (''NAIC Model Bulletin'', [''naic'', ''model bulletin'']),
      (''Colorado SB21-169'', [''colorado'', ''sb21-169'', ''sb 21-169'', ''sb21169''])]"

text \<open>
  The inner loop \<open>for keyword in keywords\<close>: the first keyword found in the lower-cased
  query appends the regulation and breaks.
\<close>

fun scan_keywords :: "string \<Rightarrow> string \<Rightarrow> string list \<Rightarrow> string list \<Rightarrow> string list" where
  "scan_keywords query_lower regulation [] found = found"
| "scan_keywords query_lower regulation (keyword # keywords) found =
     (if py_in keyword query_lower then found @ [regulation]
      else scan_keywords query_lower regulation keywords found)"

text \<open>The outer loop \<open>for regulation, keywords in patterns.items()\<close>.\<close>

fun scan_patterns ::
  "string \<Rightarrow> (string \<times> string list) list \<Rightarrow> string list \<Rightarrow> string list" where
  "scan_patterns query_lower [] found = found"
| "scan_patterns query_lower ((regulation, keywords) # rest) found =
     scan_patterns query_lower rest (scan_keywords query_lower regulation keywords found)"

definition detect_regulations :: "string \<Rightarrow> string list" where
  "detect_regulations query = scan_patterns (lower query) patterns []"

text \<open>
  The specification's reading of "a keyword variant occurs case-insensitively as a
  substring of the query": some contiguous piece of the query equals the variant once
  both are lower-cased.
\<close>

definition occurs_ci :: "string \<Rightarrow> string \<Rightarrow> bool" where
  "occurs_ci variant query =
     (\<exists>before piece after. query = before @ piece @ after \<and> lower piece = lower variant)"

definition mentions :: "string \<Rightarrow> string \<Rightarrow> bool" where
  "mentions query regulation =
     (\<exists>keywords variant. (regulation, keywords) \<in> set patterns \<and> variant \<in> set keywords
        \<and> occurs_ci variant query)"

section \<open>Values decoded from JSON, and exceptions\<close>

text \<open>
  A Python \<open>float\<close> is an IEEE-754 double: a finite double is modelled by the rational
  number it denotes; \<open>json.loads\<close> also accepts \<open>Infinity\<close>, \<open>-Infinity\<close> and \<open>NaN\<close>. Only
  comparison is needed, and Python compares numbers by their exact values.
\<close>

datatype pyfloat = Finite rat | PosInf | NegInf | NaN

text \<open>
  What \<open>json.loads\<close> can return. A \<open>dict\<close> is an association list read with \<open>map_of\<close>.
\<close>

datatype json =
    JNull
  | JBool bool
  | JInt int
  | JFloat pyfloat
  | JStr string
  | JArr "json list"
  | JObj "(string \<times> json) list"

datatype exc =
    JSONDecodeError
  | AttributeError
  | TypeError
  | KeyError
  | ValueError
  | RecursionError

text \<open>
  The float literals of the source. \<open>0.7\<close> is not a double: the literal denotes the
  nearest one, \<open>3152519739159347 / 2 ^ 52\<close>. \<open>1.0\<close> and \<open>0.5\<close> are exact.
\<close>

definition float_0_7 :: pyfloat where
  "float_0_7 = Finite (3152519739159347 / 4503599627370496)"

definition float_1_0 :: pyfloat where
  "float_1_0 = Finite 1"

definition float_0_5 :: pyfloat where
  "float_0_5 = Finite (1 / 2)"

fun float_lt :: "pyfloat \<Rightarrow> pyfloat \<Rightarrow> bool" where
  "float_lt NaN y = False"
| "float_lt x NaN = False"
| "float_lt (Finite a) (Finite b) = (a < b)"
| "float_lt (Finite a) PosInf = True"
| "float_lt (Finite a) NegInf = False"
| "float_lt NegInf (Finite b) = True"
| "float_lt NegInf PosInf = True"
| "float_lt NegInf NegInf = False"
| "float_lt PosInf y = False"

text \<open>
  \<open>py_lt x y\<close> is \<open>x < y\<close> for a decoded value \<open>x\<close> and a float \<open>y\<close>: an \<open>int\<close> (and a
  \<open>bool\<close>, which is an \<open>int\<close>) is compared by its exact value, anything else raises
  \<open>TypeError\<close>.
\<close>

fun py_lt :: "json \<Rightarrow> pyfloat \<Rightarrow> exc + bool" where
  "py_lt (JFloat x) y = Inr (float_lt x y)"
| "py_lt (JInt i) y = Inr (float_lt (Finite (of_int i)) y)"
| "py_lt (JBool b) y = Inr (float_lt (Finite (if b then 1 else 0)) y)"
| "py_lt JNull y = Inl TypeError"
| "py_lt (JStr v) y = Inl TypeError"
| "py_lt (JArr v) y = Inl TypeError"
| "py_lt (JObj v) y = Inl TypeError"

text \<open>
  \<open>dict_get d key fallback\<close> is \<open>d.get(key, fallback)\<close>; a decoded value that is not a
  \<open>dict\<close> has no attribute \<open>get\<close>.
\<close>

fun dict_get :: "json \<Rightarrow> string \<Rightarrow> json \<Rightarrow> exc + json" where
  "dict_get (JObj items) key fallback =
     Inr (case map_of items key of Some v \<Rightarrow> v | None \<Rightarrow> fallback)"
| "dict_get other key fallback = Inl AttributeError"

section \<open>The shared state (agents/state.py)\<close>

record document =
  page_content :: string
  metadata :: "(string \<times> json) list"

text \<open>
  \<open>AgentState\<close> is a \<open>TypedDict\<close> with all seven keys required, and \<open>ask_question\<close>
  builds it with all seven: it is a record, and the defaults of \<open>state.get("retry_count", 0)\<close>
  and \<open>state.get("verification", {})\<close> for a missing key are never taken.
\<close>

record agent_state =
  query :: string
  query_type :: string
  target_regulations :: "string list"
  retrieved_docs :: "document list"
  answer :: string
  verification :: json
  retry_count :: int

section \<open>The Router (agents/router.py)\<close>

definition valid_types :: "string list" where
  "valid_types = [''LOOKUP'', ''COMPARE'', ''CHECKLIST'', ''EXPLAIN'']"

text \<open>
  \<open>content\<close> is \<open>response.content\<close>, the text the model returned for the classification
  prompt. The warning that is logged on an unexpected label does not change the state.
\<close>

definition router_agent :: "string \<Rightarrow> agent_state \<Rightarrow> agent_state" where
  "router_agent content state =
     (let qtype = upper (strip content);
          qtype = (if qtype \<notin> set valid_types then ''EXPLAIN'' else qtype);
          targets = detect_regulations (query state)
      in state\<lparr>query_type := qtype, target_regulations := targets\<rparr>)"

section \<open>The Retriever (agents/retriever.py)\<close>

text \<open>
  One call \<open>similarity_search(query, k, filter_dict)\<close> is the triple of its arguments,
  the filter \<open>{"regulation": r}\<close> being \<open>Some r\<close>. The vector store is a parameter, a
  function from the call to the passages it returns; the agent returns the calls it
  made, in order, next to the new state.
\<close>

type_synonym search_call = "string \<times> int \<times> string option"

type_synonym searcher = "search_call \<Rightarrow> document list"

text \<open>The loop \<open>for reg in target_regulations\<close> of the COMPARE branch.\<close>

fun search_each ::
  "searcher \<Rightarrow> string \<Rightarrow> int \<Rightarrow> string list \<Rightarrow> document list \<times> search_call list
    \<Rightarrow> document list \<times> search_call list" where
  "search_each search q per_regulation [] (results, calls) = (results, calls)"
| "search_each search q per_regulation (reg # regs) (results, calls) =
     search_each search q per_regulation regs
       (results @ search (q, per_regulation, Some reg),
        calls @ [(q, per_regulation, Some reg)])"

text \<open>
  The choice of strategy, lines 29 to 63 of the agent, on \<open>query\<close>, \<open>query_type\<close> and
  \<open>target_regulations\<close> (here \<open>q\<close>, \<open>qtype\<close> and \<open>targets\<close>).
\<close>

definition primary_search ::
  "searcher \<Rightarrow> string \<Rightarrow> string \<Rightarrow> string list \<Rightarrow> document list \<times> search_call list" where
  "primary_search search q qtype targets =
     (if qtype = ''LOOKUP'' \<and> length targets = 1 then
        (search (q, 5, Some (targets ! 0)), [(q, 5, Some (targets ! 0))])
      else if qtype = ''COMPARE'' \<and> length targets \<ge> 2 then
        (let per_regulation = max 5 (10 div int (length targets))
         in search_each search q per_regulation targets ([], []))
      else if qtype = ''COMPARE'' then
        (search (q, 10, None), [(q, 10, None)])
      else
        (search (q, 7, None), [(q, 7, None)]))"

definition retriever_agent ::
  "searcher \<Rightarrow> agent_state \<Rightarrow> agent_state \<times> search_call list" where
  "retriever_agent search state =
     (let (results, calls) =
            primary_search search (query state) (query_type state) (target_regulations state);
          (results, calls) =
            (if retry_count state > 0 \<and> length results < 3
             then (search (query state, 10, None), calls @ [(query state, 10, None)])
             else (results, calls))
      in (state\<lparr>retrieved_docs := results, retry_count := retry_count state + 1\<rparr>, calls))"

section \<open>The Synthesizer (agents/synthesizer.py)\<close>

definition synthesizer_agent :: "string \<Rightarrow> agent_state \<Rightarrow> agent_state" where
  "synthesizer_agent content state = state\<lparr>answer := content\<rparr>"

section \<open>The Compliance Checker (agents/compliance_checker.py)\<close>

definition default_verification :: json where
  "default_verification =
     JObj [(''claims'', JArr []),
           (''confidence'', JFloat float_0_5),
           (''summary'', JStr ''Could not parse verification response'')]"

text \<open>
  \<open>lines[1:-1]\<close> of a list: without its first and its last element, empty when the list
  has fewer than three.
\<close>

definition inner_lines :: "string list \<Rightarrow> string list" where
  "inner_lines lines = butlast (tl lines)"

definition strip_fence :: "string \<Rightarrow> string" where
  "strip_fence response_text =
     (let text = strip response_text
      in if startswith text ''```'' then join_nl (inner_lines (split_nl text)) else text)"

text \<open>
  \<open>json.loads\<close> is a parameter: it returns the decoded value or raises. The handler
  catches \<open>JSONDecodeError\<close> and nothing else.
\<close>

definition parse_verification_response :: "(string \<Rightarrow> exc + json) \<Rightarrow> string \<Rightarrow> exc + json" where
  "parse_verification_response loads response_text =
     (case loads (strip_fence response_text) of
        Inr payload \<Rightarrow> Inr payload
      | Inl e \<Rightarrow> if e = JSONDecodeError then Inr default_verification else Inl e)"

definition compliance_checker_agent ::
  "(string \<Rightarrow> exc + json) \<Rightarrow> string \<Rightarrow> agent_state \<Rightarrow> exc + agent_state" where
  "compliance_checker_agent loads content state =
     (case parse_verification_response loads content of
        Inl e \<Rightarrow> Inl e
      | Inr v \<Rightarrow> Inr (state\<lparr>verification := v\<rparr>))"

section \<open>The graph (graph.py)\<close>

definition should_retry :: "agent_state \<Rightarrow> exc + string" where
  "should_retry state =
     (case dict_get (verification state) ''confidence'' (JFloat float_1_0) of
        Inl e \<Rightarrow> Inl e
      | Inr confidence \<Rightarrow>
          (case py_lt confidence float_0_7 of
             Inl e \<Rightarrow> Inl e
           | Inr below \<Rightarrow>
               if below \<and> retry_count state \<le> 2 then Inr ''retry'' else Inr ''end''))"

datatype node = Router | Retriever | Synthesizer | Compliance_checker | END

text \<open>
  The outside world of one run: the text the language model returns and the passages
  the vector store returns may differ from one step of the graph to the next, so both
  are indexed by the number of nodes run before; \<open>json.loads\<close> is a fixed function.
\<close>

record world =
  llm :: "nat \<Rightarrow> string"
  similarity_search :: "nat \<Rightarrow> searcher"
  json_loads :: "string \<Rightarrow> exc + json"

fun run_node :: "world \<Rightarrow> nat \<Rightarrow> node \<Rightarrow> agent_state \<Rightarrow> exc + agent_state" where
  "run_node w t Router state = Inr (router_agent (llm w t) state)"
| "run_node w t Retriever state = Inr (fst (retriever_agent (similarity_search w t) state))"
| "run_node w t Synthesizer state = Inr (synthesizer_agent (llm w t) state)"
| "run_node w t Compliance_checker state =
     compliance_checker_agent (json_loads w) (llm w t) state"
| "run_node w t END state = Inr state"

text \<open>
  The edges of \<open>build_graph\<close>; the conditional edge looks the label of \<open>should_retry\<close> up
  in \<open>{"retry": "retriever", "end": END}\<close>.
\<close>

fun next_node :: "node \<Rightarrow> agent_state \<Rightarrow> exc + node" where
  "next_node Router state = Inr Retriever"
| "next_node Retriever state = Inr Synthesizer"
| "next_node Synthesizer state = Inr Compliance_checker"
| "next_node Compliance_checker state =
     (case should_retry state of
        Inl e \<Rightarrow> Inl e
      | Inr label \<Rightarrow>
          (case map_of [(''retry'', Retriever), (''end'', END)] label of
             Some n \<Rightarrow> Inr n
           | None \<Rightarrow> Inl KeyError))"
| "next_node END state = Inr END"

text \<open>
  \<open>app.invoke\<close>, from node \<open>n\<close> at step \<open>t\<close>: the nodes run with the state each left, and
  the outcome, the final state or the exception that ended the run; \<open>None\<close> when the
  fuel ran out before the run ended.
\<close>

fun invoke_from ::
  "world \<Rightarrow> nat \<Rightarrow> nat \<Rightarrow> node \<Rightarrow> agent_state
    \<Rightarrow> (node \<times> agent_state) list \<times> (exc + agent_state) option" where
  "invoke_from w 0 t n state = ([], None)"
| "invoke_from w (Suc fuel) t n state =
     (if n = END then ([], Some (Inr state))
      else
        (case run_node w t n state of
           Inl e \<Rightarrow> ([], Some (Inl e))
         | Inr state' \<Rightarrow>
             (case next_node n state' of
                Inl e \<Rightarrow> ([(n, state')], Some (Inl e))
              | Inr n' \<Rightarrow>
                  (case invoke_from w fuel (Suc t) n' state' of
                     (trace, outcome) \<Rightarrow> ((n, state') # trace, outcome)))))"

definition initial_state :: "string \<Rightarrow> agent_state" where
  "initial_state q =
     \<lparr>query = q, query_type = [], target_regulations = [], retrieved_docs = [],
      answer = [], verification = JObj [], retry_count = 0\<rparr>"

text \<open>One entry of \<open>sources\<close>, with the keys \<open>regulation\<close>, \<open>page\<close> and \<open>content\<close>.\<close>

record source =
  source_regulation :: json
  source_page :: json
  source_content :: string

definition format_source :: "document \<Rightarrow> source" where
  "format_source doc =
     \<lparr>source_regulation =
        (case map_of (metadata doc) ''regulation'' of Some v \<Rightarrow> v | None \<Rightarrow> JStr ''Unknown''),
      source_page = (case map_of (metadata doc) ''page'' of Some v \<Rightarrow> v | None \<Rightarrow> JInt 0),
      source_content = take 300 (page_content doc)\<rparr>"

definition format_sources :: "document list \<Rightarrow> source list" where
  "format_sources docs = map format_source docs"

record response =
  response_answer :: string
  response_sources :: "source list"
  response_confidence :: json
  response_query_type :: string
  response_verification :: json

text \<open>The packaging of the final state at the end of \<open>ask_question\<close>.\<close>

definition package :: "agent_state \<Rightarrow> exc + response" where
  "package result =
     (case dict_get (verification result) ''confidence'' (JInt 0) of
        Inl e \<Rightarrow> Inl e
      | Inr confidence \<Rightarrow>
          Inr \<lparr>response_answer = answer result,
               response_sources = format_sources (retrieved_docs result),
               response_confidence = confidence,
               response_query_type = query_type result,
               response_verification = verification result\<rparr>)"

definition ask_question :: "world \<Rightarrow> nat \<Rightarrow> string \<Rightarrow> (exc + response) option" where
  "ask_question w fuel q =
     (case snd (invoke_from w fuel 0 Router (initial_state q)) of
        None \<Rightarrow> None
      | Some (Inl e) \<Rightarrow> Some (Inl e)
      | Some (Inr result) \<Rightarrow> Some (package result))"

text \<open>The number of times the Retriever ran in a trace.\<close>

definition retrievals :: "(node \<times> agent_state) list \<Rightarrow> nat" where
  "retrievals trace = length (filter (\<lambda>c. fst c = Retriever) trace)"

section \<open>Example inputs\<close>

definition doc1 :: document where
  "doc1 =
     \<lparr>page_content = ''Model validation'',
      metadata = [(''regulation'', JStr ''SR 11-7''), (''page'', JInt 12)]\<rparr>"

definition doc2 :: document where
  "doc2 =
     \<lparr>page_content = ''Govern'',
      metadata = [(''regulation'', JStr ''NIST AI RMF''), (''page'', JInt 3)]\<rparr>"

text \<open>
  A store with one passage per regulation: a filtered search finds that regulation's
  passage, an unfiltered one finds both.
\<close>

definition small_store :: searcher where
  "small_store call =
     (case snd (snd call) of
        None \<Rightarrow> [doc1, doc2]
      | Some r \<Rightarrow>
          if r = ''SR 11-7'' then [doc1] else if r = ''NIST AI RMF'' then [doc2] else [])"

text \<open>A state after a first pass that was scored 0.5.\<close>

definition s_low :: agent_state where
  "s_low =
     \<lparr>query = ''What does SR 11-7 say?'', query_type = ''LOOKUP'',
      target_regulations = [''SR 11-7''], retrieved_docs = [], answer = ''text'',
      verification = JObj [(''claims'', JArr []), (''confidence'', JFloat (Finite (1 / 2)))],
      retry_count = 1\<rparr>"

definition s_retry :: agent_state where
  "s_retry =
     \<lparr>query = ''What does SR 11-7 say?'', query_type = ''LOOKUP'',
      target_regulations = [''SR 11-7''], retrieved_docs = [doc2], answer = ''text'',
      verification = JObj [(''confidence'', JFloat (Finite (1 / 2)))],
      retry_count = 1\<rparr>"

text \<open>A world whose verification reply decodes to the empty \<open>dict\<close>.\<close>

definition world_no_confidence :: world where
  "world_no_confidence =
     \<lparr>llm = (\<lambda>t. if t = 0 then ''LOOKUP'' else ''{}''),
      similarity_search = (\<lambda>t call. [doc1]),
      json_loads = (\<lambda>text. if text = ''{}'' then Inr (JObj []) else Inl JSONDecodeError)\<rparr>"

text \<open>A world in which no verification reply ever decodes.\<close>

definition world_always_low :: world where
  "world_always_low =
     \<lparr>llm = (\<lambda>t. if t = 0 then ''COMPARE'' else ''no json here''),
      similarity_search = (\<lambda>t. small_store),
      json_loads = (\<lambda>text. Inl JSONDecodeError)\<rparr>"

text \<open>
  The decoder of \<open>json.loads\<close> recurses once for every array it opens, and the
  interpreter raises \<open>RecursionError\<close> when the nesting passes its recursion limit, 1000
  by default. \<open>limited_loads loads\<close> is a \<open>json.loads\<close> that does so on a text opening at
  least that many arrays and is \<open>loads\<close> on every other text. \<open>deep_text\<close> is the valid
  JSON document \<open>"[" * 5000 + "]" * 5000\<close>.
\<close>

definition recursion_limit :: nat where
  "recursion_limit = 1000"

definition limited_loads :: "(string \<Rightarrow> exc + json) \<Rightarrow> string \<Rightarrow> exc + json" where
  "limited_loads loads text =
     (if recursion_limit \<le> length (takeWhile (\<lambda>c. c = CHR ''['') text) then Inl RecursionError
      else loads text)"

definition deep_text :: string where
  "deep_text = replicate 5000 (CHR ''['') @ replicate 5000 (CHR '']'')"

section \<open>Properties of the string functions\<close>

lemma startswith_iff: "startswith s p \<longleftrightarrow> (\<exists>r. s = p @ r)"
  by (induction s p rule: startswith.induct) auto

lemma py_in_iff: "py_in n h \<longleftrightarrow> (\<exists>ps ss. h = ps @ n @ ss)"
proof (induction h)
  case Nil
  then show ?case by auto
next
  case (Cons c cs)
  show ?case
  proof
    assume "py_in n (c # cs)"
    then consider "startswith (c # cs) n" | "py_in n cs" by auto
    then show "\<exists>ps ss. c # cs = ps @ n @ ss"
    proof cases
      case 1
      then obtain r where "c # cs = n @ r" by (auto simp: startswith_iff)
      then have "c # cs = [] @ n @ r" by simp
      then show ?thesis by blast
    next
      case 2
      then obtain ps ss where "cs = ps @ n @ ss" using Cons.IH by auto
      then have "c # cs = (c # ps) @ n @ ss" by simp
      then show ?thesis by blast
    qed
  next
    assume "\<exists>ps ss. c # cs = ps @ n @ ss"
    then obtain ps ss where e: "c # cs = ps @ n @ ss" by blast
    show "py_in n (c # cs)"
    proof (cases ps)
      case Nil
      then have "startswith (c # cs) n" using e by (auto simp: startswith_iff)
      then show ?thesis by simp
    next
      case (Cons p ps')
      then have "cs = ps' @ n @ ss" using e by simp
      then have "py_in n cs" using Cons.IH by blast
      then show ?thesis by simp
    qed
  qed
qed

lemma map_eq_append3:
  assumes "map f q = ps @ m @ ss"
  obtains b p a where "q = b @ p @ a" "map f p = m"
proof -
  from assms have "\<exists>us vs. q = us @ vs \<and> ps = map f us \<and> m @ ss = map f vs"
    by (simp add: map_eq_append_conv)
  then obtain b r where br: "q = b @ r" "m @ ss = map f r" by blast
  from br(2) have "\<exists>us vs. r = us @ vs \<and> m = map f us \<and> ss = map f vs"
    by (simp add: append_eq_map_conv)
  then obtain p a where "r = p @ a" "map f p = m" by blast
  with br(1) that show thesis by blast
qed

lemma py_in_lower_iff: "py_in (lower v) (lower q) \<longleftrightarrow> occurs_ci v q"
proof
  assume "py_in (lower v) (lower q)"
  then obtain ps ss where "map lower_char q = ps @ lower v @ ss"
    by (auto simp: py_in_iff lower_def)
  then obtain b p a where "q = b @ p @ a" "map lower_char p = lower v"
    by (rule map_eq_append3)
  then show "occurs_ci v q" unfolding occurs_ci_def lower_def by blast
next
  assume "occurs_ci v q"
  then obtain b p a where "q = b @ p @ a" "lower p = lower v"
    unfolding occurs_ci_def by blast
  then have "lower q = lower b @ lower v @ lower a" by (simp add: lower_def)
  then show "py_in (lower v) (lower q)" unfolding py_in_iff by blast
qed

lemma split_nl_nonempty: "split_nl s \<noteq> []"
  by (induction s) (auto split: list.splits)

lemma split_nl_append:
  "split_nl (a @ CHR 0x0A # b) = split_nl a @ split_nl b"
proof (induction a)
  case Nil
  then show ?case by simp
next
  case (Cons c a)
  obtain l ls where "split_nl a = l # ls"
    using split_nl_nonempty [of a] by (cases "split_nl a") auto
  with Cons show ?case by simp
qed

lemma split_nl_line: "CHR 0x0A \<notin> set s \<Longrightarrow> split_nl s = [s]"
  by (induction s) auto

lemma join_nl_Cons: "join_nl ((c # l) # ls) = c # join_nl (l # ls)"
  by (cases ls) simp_all

lemma join_nl_split_nl: "join_nl (split_nl s) = s"
proof (induction s)
  case Nil
  then show ?case by simp
next
  case (Cons c s)
  obtain l ls where e: "split_nl s = l # ls"
    using split_nl_nonempty [of s] by (cases "split_nl s") auto
  with Cons show ?case by (simp add: join_nl_Cons)
qed

lemma lstrip_id: "s \<noteq> [] \<Longrightarrow> \<not> isspace (hd s) \<Longrightarrow> lstrip s = s"
  by (cases s) (simp_all add: lstrip_def)

lemma rstrip_id: "s \<noteq> [] \<Longrightarrow> \<not> isspace (last s) \<Longrightarrow> rstrip s = s"
proof -
  assume a: "s \<noteq> []" "\<not> isspace (last s)"
  then have "rev s \<noteq> []" "\<not> isspace (hd (rev s))" by (simp_all add: hd_rev)
  then have "dropWhile isspace (rev s) = rev s" by (cases "rev s") simp_all
  then show ?thesis by (simp add: rstrip_def)
qed

lemma lstrip_padded:
  "set pre \<subseteq> set whitespace \<Longrightarrow> s \<noteq> [] \<Longrightarrow> \<not> isspace (hd s) \<Longrightarrow> lstrip (pre @ s) = s"
proof -
  assume a: "set pre \<subseteq> set whitespace" "s \<noteq> []" "\<not> isspace (hd s)"
  then have "dropWhile isspace (pre @ s) = dropWhile isspace s"
    by (intro dropWhile_append2) (auto simp: isspace_def)
  then show ?thesis using a lstrip_id by (simp add: lstrip_def)
qed

lemma rstrip_padded:
  "set post \<subseteq> set whitespace \<Longrightarrow> s \<noteq> [] \<Longrightarrow> \<not> isspace (last s) \<Longrightarrow> rstrip (s @ post) = s"
proof -
  assume a: "set post \<subseteq> set whitespace" "s \<noteq> []" "\<not> isspace (last s)"
  then have "dropWhile isspace (rev post @ rev s) = dropWhile isspace (rev s)"
    by (intro dropWhile_append2) (auto simp: isspace_def)
  moreover have "rstrip s = s" using a by (simp add: rstrip_id)
  ultimately show ?thesis by (simp add: rstrip_def)
qed

lemma strip_padded:
  assumes "set pre \<subseteq> set whitespace" "set post \<subseteq> set whitespace"
    and "s \<noteq> []" "\<not> isspace (hd s)" "\<not> isspace (last s)"
  shows "strip (pre @ s @ post) = s"
proof -
  have "lstrip (pre @ s @ post) = s @ post"
    using assms by (intro lstrip_padded) simp_all
  then show ?thesis using assms by (simp add: strip_def rstrip_padded)
qed

lemma lower_char_other: "c \<notin> set ascii_uppercase \<Longrightarrow> lower_char c = c"
  unfolding lower_char_def ascii_uppercase_def ascii_lowercase_def by simp

lemma upper_lower_upper: "c \<in> set ascii_uppercase \<Longrightarrow> upper_char (lower_char c) = upper_char c"
  unfolding upper_char_def lower_char_def ascii_uppercase_def ascii_lowercase_def by auto

lemma upper_lower_char: "upper_char (lower_char c) = upper_char c"
  using lower_char_other upper_lower_upper by (cases "c \<in> set ascii_uppercase") simp_all

lemma upper_of_lower: "upper (lower s) = upper s"
  by (simp add: upper_def lower_def upper_lower_char)

lemma upper_char_other: "c \<notin> set ascii_lowercase \<Longrightarrow> upper_char c = c"
  unfolding upper_char_def ascii_uppercase_def ascii_lowercase_def by simp

lemma space_not_lowercase: "isspace c \<Longrightarrow> c \<notin> set ascii_lowercase"
  unfolding isspace_def whitespace_def ascii_lowercase_def by auto

lemma upper_char_space: "isspace c \<Longrightarrow> upper_char c = c"
  by (simp add: upper_char_other space_not_lowercase)

section \<open>Properties of regulation detection\<close>

lemma scan_keywords_eq:
  "scan_keywords ql r kws found = found @ (if \<exists>kw\<in>set kws. py_in kw ql then [r] else [])"
  by (induction kws) auto

lemma scan_patterns_eq:
  "scan_patterns ql ps found =
     found @ map fst (filter (\<lambda>p. \<exists>kw\<in>set (snd p). py_in kw ql) ps)"
  by (induction ps arbitrary: found) (auto simp: scan_keywords_eq)

lemma patterns_keys: "map fst patterns = KNOWN_REGULATIONS"
  by (simp add: patterns_def KNOWN_REGULATIONS_def)

lemma distinct_KNOWN: "distinct KNOWN_REGULATIONS"
  by (simp add: KNOWN_REGULATIONS_def)

lemma patterns_lowercase: "(r, kws) \<in> set patterns \<Longrightarrow> kw \<in> set kws \<Longrightarrow> lower kw = kw"
  unfolding patterns_def lower_def lower_char_def ascii_uppercase_def ascii_lowercase_def
  by auto

lemma mentions_iff:
  assumes "(r, kws) \<in> set patterns"
  shows "mentions q r \<longleftrightarrow> (\<exists>kw\<in>set kws. py_in kw (lower q))"
proof -
  have d: "distinct (map fst patterns)" by (simp add: patterns_keys distinct_KNOWN)
  have u: "kws' = kws" if "(r, kws') \<in> set patterns" for kws'
    using that assms d by (meson eq_key_imp_eq_value)
  have l: "py_in kw (lower q) \<longleftrightarrow> occurs_ci kw q" if "kw \<in> set kws" for kw
    using py_in_lower_iff [of kw q] patterns_lowercase [OF assms that] by simp
  show ?thesis
  proof
    assume "mentions q r"
    then obtain kws' v where "(r, kws') \<in> set patterns" "v \<in> set kws'" "occurs_ci v q"
      unfolding mentions_def by blast
    then show "\<exists>kw\<in>set kws. py_in kw (lower q)" using u l by blast
  next
    assume "\<exists>kw\<in>set kws. py_in kw (lower q)"
    then show "mentions q r" unfolding mentions_def using assms l by blast
  qed
qed

lemma detect_regulations_filter:
  "detect_regulations q = filter (mentions q) KNOWN_REGULATIONS"
proof -
  have "detect_regulations q =
          map fst (filter (\<lambda>p. \<exists>kw\<in>set (snd p). py_in kw (lower q)) patterns)"
    by (simp add: detect_regulations_def scan_patterns_eq)
  also have "\<dots> = map fst (filter (\<lambda>p. mentions q (fst p)) patterns)"
    by (rule arg_cong [where f = "map fst"], rule filter_cong) (auto simp: mentions_iff)
  also have "\<dots> = filter (mentions q) (map fst patterns)"
    by (simp add: filter_map comp_def)
  finally show ?thesis by (simp add: patterns_keys)
qed

text \<open>
  C6. For every query, \<open>detect_regulations\<close> returns the catalog, in catalog order,
  filtered to the regulations the query mentions: a regulation is in the result, exactly
  once, if and only if one of its keyword variants occurs case-insensitively as a
  substring of the query, and the result is empty exactly when no variant occurs.
\<close>

theorem detect_regulations_catalog_order:
  "detect_regulations q = filter (mentions q) KNOWN_REGULATIONS
   \<and> distinct (detect_regulations q)
   \<and> (r \<in> set (detect_regulations q) \<longleftrightarrow> mentions q r)
   \<and> (detect_regulations q = [] \<longleftrightarrow> (\<nexists>r. mentions q r))"
proof -
  have k: "mentions q r \<Longrightarrow> r \<in> set KNOWN_REGULATIONS" for r
    unfolding mentions_def patterns_keys [symmetric] by force
  have "r \<in> set (detect_regulations q) \<longleftrightarrow> mentions q r" for r
    using k by (auto simp: detect_regulations_filter)
  moreover have "detect_regulations q = [] \<longleftrightarrow> (\<nexists>r. mentions q r)"
    using k by (auto simp: detect_regulations_filter filter_empty_conv)
  ultimately show ?thesis
    by (simp add: detect_regulations_filter distinct_KNOWN)
qed

text \<open>The test \<open>test_detects_multiple\<close>, with the regulations named in the other order.\<close>

lemma detect_regulations_two:
  "detect_regulations ''Compare NIST frameworks and SR 11-7'' = [''SR 11-7'', ''NIST AI RMF'']"
  by code_simp

section \<open>Properties of the retry gate\<close>

text \<open>
  C1. When the verification result is a \<open>dict\<close> whose confidence, 1.0 when the key is
  absent, can be compared with a float, the conditional edge after the Compliance
  Checker leads to the Retriever if and only if the confidence is below 0.7 and
  \<open>retry_count\<close> is at most 2, and to \<open>END\<close> otherwise. An absent confidence is not below
  0.7, so that run ends.
\<close>

theorem should_retry_gate:
  assumes "verification s = JObj items"
    and "py_lt (case map_of items ''confidence'' of Some c \<Rightarrow> c | None \<Rightarrow> JFloat float_1_0)
           float_0_7 = Inr below"
  shows "(should_retry s = Inr ''retry'' \<longleftrightarrow> below \<and> retry_count s \<le> 2)
       \<and> (should_retry s = Inr ''end'' \<longleftrightarrow> \<not> (below \<and> retry_count s \<le> 2))
       \<and> (next_node Compliance_checker s = Inr Retriever \<longleftrightarrow> below \<and> retry_count s \<le> 2)
       \<and> (next_node Compliance_checker s = Inr END \<longleftrightarrow> \<not> (below \<and> retry_count s \<le> 2))
       \<and> (map_of items ''confidence'' = None \<longrightarrow>
            \<not> below \<and> next_node Compliance_checker s = Inr END)
       \<and> (\<forall>x. map_of items ''confidence'' = Some (JFloat (Finite x)) \<longrightarrow>
            (below \<longleftrightarrow> x < 3152519739159347 / 4503599627370496))"
proof -
  have sr: "should_retry s = Inr (if below \<and> retry_count s \<le> 2 then ''retry'' else ''end'')"
    using assms by (simp add: should_retry_def)
  have nn: "next_node Compliance_checker s =
              Inr (if below \<and> retry_count s \<le> 2 then Retriever else END)"
    by (simp add: sr)
  have absent: "\<not> below" if "map_of items ''confidence'' = None"
    using assms(2) that by (simp add: float_1_0_def float_0_7_def)
  have num: "below \<longleftrightarrow> x < 3152519739159347 / 4503599627370496"
    if "map_of items ''confidence'' = Some (JFloat (Finite x))" for x
    using assms(2) that by (auto simp: float_0_7_def)
  show ?thesis
    using absent num by (simp add: sr nn)
qed

theorem should_retry_gate_witness:
  "should_retry s_low = Inr ''retry'' \<and> next_node Compliance_checker s_low = Inr Retriever
   \<and> next_node Compliance_checker (s_low\<lparr>retry_count := 3\<rparr>) = Inr END
   \<and> next_node Compliance_checker (s_low\<lparr>verification := JObj []\<rparr>) = Inr END"
proof -
  have a: "verification s_low = JObj [(''claims'', JArr []), (''confidence'', JFloat (Finite (1 / 2)))]"
    by (simp add: s_low_def)
  have b: "py_lt (case map_of [(''claims'', JArr []), (''confidence'', JFloat (Finite (1 / 2)))]
                   ''confidence'' of Some c \<Rightarrow> c | None \<Rightarrow> JFloat float_1_0) float_0_7 = Inr True"
    by (simp add: float_0_7_def)
  have c: "verification (s_low\<lparr>retry_count := 3\<rparr>) =
             JObj [(''claims'', JArr []), (''confidence'', JFloat (Finite (1 / 2)))]"
    by (simp add: s_low_def)
  have d: "verification (s_low\<lparr>verification := JObj []\<rparr>) = JObj []" by simp
  have e: "py_lt (case map_of [] ''confidence'' of Some c \<Rightarrow> c | None \<Rightarrow> JFloat float_1_0)
             float_0_7 = Inr False"
    by (simp add: float_0_7_def float_1_0_def)
  show ?thesis
    using should_retry_gate [OF a b] should_retry_gate [OF c b] should_retry_gate [OF d e]
    by (simp add: s_low_def)
qed

text \<open>
  C9. When a run ends in a state whose verification \<open>dict\<close> has no key
  \<open>"confidence"\<close>, the response of \<open>ask_question\<close> reports the confidence \<open>0\<close>, while
  \<open>should_retry\<close> reads the same \<open>dict\<close> as confidence \<open>1.0\<close> and answers \<open>"end"\<close>.
\<close>

theorem confidence_defaults_differ:
  assumes "snd (invoke_from w fuel 0 Router (initial_state q)) = Some (Inr final)"
    and "verification final = JObj items"
    and "map_of items ''confidence'' = None"
  shows "(\<exists>r. ask_question w fuel q = Some (Inr r) \<and> package final = Inr r
              \<and> response_confidence r = JInt 0)
       \<and> dict_get (verification final) ''confidence'' (JFloat float_1_0) = Inr (JFloat float_1_0)
       \<and> should_retry final = Inr ''end''
       \<and> JInt 0 \<noteq> JFloat float_1_0"
proof -
  have p: "package final =
             Inr \<lparr>response_answer = answer final,
                  response_sources = format_sources (retrieved_docs final),
                  response_confidence = JInt 0,
                  response_query_type = query_type final,
                  response_verification = verification final\<rparr>"
    using assms(2,3) by (simp add: package_def)
  have a: "ask_question w fuel q = Some (package final)"
    using assms(1) by (simp add: ask_question_def)
  have g: "dict_get (verification final) ''confidence'' (JFloat float_1_0) = Inr (JFloat float_1_0)"
    using assms(2,3) by simp
  have s: "should_retry final = Inr ''end''"
    unfolding should_retry_def g by (simp add: float_1_0_def float_0_7_def)
  show ?thesis
    by (simp add: a p g s)
qed

lemma run_no_confidence:
  "snd (invoke_from world_no_confidence 5 0 Router (initial_state ''What does SR 11-7 say?'')) =
     Some (Inr \<lparr>query = ''What does SR 11-7 say?'', query_type = ''LOOKUP'',
       target_regulations = [''SR 11-7''], retrieved_docs = [doc1], answer = ''{}'',
       verification = JObj [], retry_count = 1\<rparr>)"
  by code_simp

theorem confidence_defaults_differ_witness:
  "\<exists>r. ask_question world_no_confidence 5 ''What does SR 11-7 say?'' = Some (Inr r)
       \<and> response_confidence r = JInt 0"
  using confidence_defaults_differ [OF run_no_confidence, of "[]"] by auto

section \<open>Properties of the Retriever\<close>

lemma search_each_eq:
  "search_each search q k regs (results, calls) =
     (results @ concat (map (\<lambda>r. search (q, k, Some r)) regs),
      calls @ map (\<lambda>r. (q, k, Some r)) regs)"
  by (induction regs arbitrary: results calls) simp_all

lemma per_regulation_five: "2 \<le> n \<Longrightarrow> max 5 (10 div int n) = 5"
proof -
  assume "2 \<le> n"
  then have "10 div int n \<le> 10 div 2"
    by (intro zdiv_mono2) simp_all
  then show ?thesis by simp
qed

text \<open>
  C3. The strategy table. LOOKUP with exactly one regulation: one filtered search with
  \<open>k = 5\<close>. COMPARE with two or more: one filtered search per regulation, in order, each
  with \<open>k = max(5, 10 // count)\<close>, which is 5, the results concatenated. COMPARE with fewer
  than two: one unfiltered search with \<open>k = 10\<close>. Everything else: one unfiltered search
  with \<open>k = 7\<close>. The sizes and the kinds (filtered or not) of the searches depend on the
  intent and the number of regulations only.
\<close>

theorem primary_search_strategy:
  "(qtype = ''LOOKUP'' \<and> targets = [r] \<longrightarrow>
      primary_search search q qtype targets = (search (q, 5, Some r), [(q, 5, Some r)]))
   \<and> (qtype = ''COMPARE'' \<and> 2 \<le> length targets \<longrightarrow>
      primary_search search q qtype targets =
        (concat (map (\<lambda>r. search (q, max 5 (10 div int (length targets)), Some r)) targets),
         map (\<lambda>r. (q, max 5 (10 div int (length targets)), Some r)) targets)
      \<and> max 5 (10 div int (length targets)) = 5)
   \<and> (qtype = ''COMPARE'' \<and> length targets < 2 \<longrightarrow>
      primary_search search q qtype targets = (search (q, 10, None), [(q, 10, None)]))
   \<and> (qtype \<noteq> ''COMPARE'' \<and> \<not> (qtype = ''LOOKUP'' \<and> length targets = 1) \<longrightarrow>
      primary_search search q qtype targets = (search (q, 7, None), [(q, 7, None)]))
   \<and> (length targets' = length targets \<longrightarrow>
      map (\<lambda>c. (fst (snd c), snd (snd c) \<noteq> None)) (snd (primary_search search' q' qtype targets')) =
      map (\<lambda>c. (fst (snd c), snd (snd c) \<noteq> None)) (snd (primary_search search q qtype targets)))"
proof -
  have shape: "map (\<lambda>c. (fst (snd c), snd (snd c) \<noteq> None)) (snd (primary_search sr qq qtype ts)) =
      (if qtype = ''LOOKUP'' \<and> length ts = 1 then [(5, True)]
       else if qtype = ''COMPARE'' \<and> 2 \<le> length ts
         then replicate (length ts) (max 5 (10 div int (length ts)), True)
       else if qtype = ''COMPARE'' then [(10, False)] else [(7, False)])" for sr qq ts
    by (simp add: primary_search_def search_each_eq Let_def comp_def map_replicate_const)
  show ?thesis
    unfolding shape
    by (auto simp: primary_search_def search_each_eq Let_def per_regulation_five)
qed

theorem primary_search_strategy_witness:
  "primary_search small_store ''q'' ''LOOKUP'' [''SR 11-7''] = ([doc1], [(''q'', 5, Some ''SR 11-7'')])
   \<and> primary_search small_store ''q'' ''COMPARE'' [''SR 11-7'', ''NIST AI RMF''] =
       ([doc1, doc2], [(''q'', 5, Some ''SR 11-7''), (''q'', 5, Some ''NIST AI RMF'')])
   \<and> primary_search small_store ''q'' ''COMPARE'' [''SR 11-7''] = ([doc1, doc2], [(''q'', 10, None)])
   \<and> primary_search small_store ''q'' ''LOOKUP'' [] = ([doc1, doc2], [(''q'', 7, None)])
   \<and> primary_search small_store ''q'' ''EXPLAIN'' [''SR 11-7''] = ([doc1, doc2], [(''q'', 7, None)])"
  using primary_search_strategy [of "''LOOKUP''" "[''SR 11-7'']" "''SR 11-7''" small_store "''q''"]
    primary_search_strategy [of "''COMPARE''" "[''SR 11-7'', ''NIST AI RMF'']" _ small_store "''q''"]
    primary_search_strategy [of "''COMPARE''" "[''SR 11-7'']" _ small_store "''q''"]
    primary_search_strategy [of "''LOOKUP''" "[]" _ small_store "''q''"]
    primary_search_strategy [of "''EXPLAIN''" "[''SR 11-7'']" _ small_store "''q''"]
  by (simp add: small_store_def)

text \<open>
  C4. The widening rule. When \<open>retry_count\<close> is positive at entry and the primary
  strategy returned fewer than 3 passages, the passages are replaced by those of one
  further unfiltered search with \<open>k = 10\<close>; otherwise, and always when \<open>retry_count\<close> is
  0, the primary results stand and no further search is made. At most one search is
  added.
\<close>

theorem widening_rule:
  assumes "primary_search search (query s) (query_type s) (target_regulations s) = (results, pcalls)"
    and "retriever_agent search s = (s', calls)"
  shows "(0 < retry_count s \<and> length results < 3 \<longrightarrow>
            retrieved_docs s' = search (query s, 10, None) \<and> calls = pcalls @ [(query s, 10, None)])
       \<and> (\<not> (0 < retry_count s \<and> length results < 3) \<longrightarrow>
            retrieved_docs s' = results \<and> calls = pcalls)
       \<and> (retry_count s = 0 \<longrightarrow> retrieved_docs s' = results \<and> calls = pcalls)
       \<and> length calls \<le> length pcalls + 1"
  using assms by (auto simp: retriever_agent_def split: if_splits)

theorem widening_rule_witness:
  "primary_search small_store (query s_retry) (query_type s_retry) (target_regulations s_retry)
     = ([doc1], [(''What does SR 11-7 say?'', 5, Some ''SR 11-7'')])
   \<and> retriever_agent small_store s_retry =
       (s_retry\<lparr>retrieved_docs := [doc1, doc2], retry_count := 2\<rparr>,
        [(''What does SR 11-7 say?'', 5, Some ''SR 11-7''), (''What does SR 11-7 say?'', 10, None)])
   \<and> retriever_agent small_store (s_retry\<lparr>retry_count := 0\<rparr>) =
       (s_retry\<lparr>retrieved_docs := [doc1], retry_count := 1\<rparr>,
        [(''What does SR 11-7 say?'', 5, Some ''SR 11-7'')])"
proof -
  have p: "primary_search small_store (query s_retry) (query_type s_retry) (target_regulations s_retry)
     = ([doc1], [(''What does SR 11-7 say?'', 5, Some ''SR 11-7'')])"
    by (simp add: primary_search_def s_retry_def small_store_def)
  have p0: "primary_search small_store (query (s_retry\<lparr>retry_count := 0\<rparr>))
      (query_type (s_retry\<lparr>retry_count := 0\<rparr>)) (target_regulations (s_retry\<lparr>retry_count := 0\<rparr>))
     = ([doc1], [(''What does SR 11-7 say?'', 5, Some ''SR 11-7'')])"
    using p by simp
  obtain s1 c1 where r1: "retriever_agent small_store s_retry = (s1, c1)" by fastforce
  obtain s0 c0 where r0: "retriever_agent small_store (s_retry\<lparr>retry_count := 0\<rparr>) = (s0, c0)"
    by fastforce
  have rest1: "s1 = s_retry\<lparr>retrieved_docs := retrieved_docs s1, retry_count := 2\<rparr>"
    using r1 by (auto simp: retriever_agent_def s_retry_def split: prod.splits if_splits)
  have rest0: "s0 = s_retry\<lparr>retrieved_docs := retrieved_docs s0, retry_count := 1\<rparr>"
    using r0 by (auto simp: retriever_agent_def s_retry_def split: prod.splits if_splits)
  have "retrieved_docs s1 = [doc1, doc2]" "c1 = [(''What does SR 11-7 say?'', 5, Some ''SR 11-7''), (''What does SR 11-7 say?'', 10, None)]"
    using widening_rule [OF p r1] by (simp_all add: s_retry_def small_store_def)
  moreover have "retrieved_docs s0 = [doc1]" "c0 = [(''What does SR 11-7 say?'', 5, Some ''SR 11-7'')]"
    using widening_rule [OF p0 r0] by simp_all
  ultimately show ?thesis
    using p r1 r0 rest1 rest0 by simp
qed

text \<open>
  C10. The Retriever replaces \<open>retrieved_docs\<close>: what it stores and the searches it
  makes do not depend on the passages stored before, and what it stores is the
  concatenation of the results of all its searches, or the result of the last one.
\<close>

theorem retrieved_docs_replaced:
  "retrieved_docs (fst (retriever_agent search (s\<lparr>retrieved_docs := old\<rparr>))) =
     retrieved_docs (fst (retriever_agent search s))
   \<and> snd (retriever_agent search (s\<lparr>retrieved_docs := old\<rparr>)) = snd (retriever_agent search s)
   \<and> (retrieved_docs (fst (retriever_agent search s)) =
          concat (map search (snd (retriever_agent search s)))
        \<or> retrieved_docs (fst (retriever_agent search s)) =
          search (last (snd (retriever_agent search s))))"
proof -
  have pc: "fst (primary_search search q qt ts) = concat (map search (snd (primary_search search q qt ts)))"
    for q qt ts
    by (simp add: primary_search_def search_each_eq Let_def comp_def)
  show ?thesis
    using pc [of "query s" "query_type s" "target_regulations s"]
    by (auto simp: retriever_agent_def split: prod.splits)
qed

section \<open>Properties of the verification parser\<close>

lemma strip_fence_fenced:
  assumes "CHR 0x0A \<notin> set lang"
  shows "strip_fence (''```'' @ lang @ CHR 0x0A # body @ CHR 0x0A # ''```'') = body"
proof -
  let ?t = "''```'' @ lang @ CHR 0x0A # body @ CHR 0x0A # ''```''"
  have ns: "\<not> isspace (CHR 0x60)" by (simp add: isspace_def whitespace_def)
  have "strip ([] @ ?t @ []) = ?t"
    by (rule strip_padded) (simp_all add: ns)
  then have st: "strip ?t = ?t" by simp
  have sw: "startswith ?t ''```''" by simp
  have "split_nl ?t = split_nl (''```'' @ lang) @ split_nl (body @ CHR 0x0A # ''```'')"
    using split_nl_append [of "''```'' @ lang" "body @ CHR 0x0A # ''```''"] by simp
  also have "\<dots> = (''```'' @ lang) # split_nl body @ [''```'']"
    using assms by (simp add: split_nl_line split_nl_append)
  finally have "inner_lines (split_nl ?t) = split_nl body"
    by (simp add: inner_lines_def)
  then show ?thesis
    unfolding strip_fence_def st Let_def using sw by (simp add: join_nl_split_nl)
qed

text \<open>
  A reply that is a deeply nested JSON document: \<open>json.loads\<close> raises \<open>RecursionError\<close>,
  which the handler for \<open>JSONDecodeError\<close> does not catch, and the parser raises it.
\<close>

lemma deep_text_Cons:
  "deep_text = CHR ''['' # (replicate 4999 (CHR ''['') @ replicate 5000 (CHR '']''))"
proof -
  have "replicate (Suc 4999) (CHR ''['') = CHR ''['' # replicate 4999 (CHR ''['')"
    by (rule replicate_Suc)
  then show ?thesis by (simp add: deep_text_def)
qed

lemma strip_fence_deep_text: "strip_fence deep_text = deep_text"
proof -
  have ns: "\<not> isspace (CHR ''['')" "\<not> isspace (CHR '']'')"
    by (simp_all add: isspace_def whitespace_def)
  have "strip ([] @ deep_text @ []) = deep_text"
    by (rule strip_padded) (simp_all add: deep_text_def ns)
  then have st: "strip deep_text = deep_text" by simp
  have "\<not> startswith deep_text ''```''"
    by (subst deep_text_Cons) simp
  then show ?thesis
    by (simp add: strip_fence_def st)
qed

lemma opens_deep_text: "length (takeWhile (\<lambda>c. c = CHR ''['') deep_text) = 5000"
proof -
  have "takeWhile (\<lambda>c. c = CHR ''['') (replicate 5000 (CHR ''['') @ replicate 5000 (CHR '']'')) =
      replicate 5000 (CHR ''['') @ takeWhile (\<lambda>c. c = CHR ''['') (replicate 5000 (CHR '']''))"
    by (rule takeWhile_append2) simp
  moreover have "takeWhile (\<lambda>c. c = CHR ''['') (replicate 5000 (CHR '']'')) = []"
    by (simp add: takeWhile_replicate)
  ultimately show ?thesis by (simp add: deep_text_def)
qed

theorem parse_verification_response_raises:
  "parse_verification_response (limited_loads (json_loads world_no_confidence)) deep_text =
     Inl RecursionError"
  by (simp add: parse_verification_response_def strip_fence_deep_text limited_loads_def
      opens_deep_text recursion_limit_def)

text \<open>
  C5, amended. The verification parser returns the default result, with no claims,
  confidence 0.5 and the summary of the parse failure, when \<open>json.loads\<close> raises
  \<open>JSONDecodeError\<close> on the stripped, unfenced reply, and the decoded payload, unchanged,
  when it decodes. It raises exactly when \<open>json.loads\<close> raises another exception, and
  then raises that exception. A reply that does not start with a fence is only
  stripped, and a reply fenced on its first and last line is reduced to the lines
  between.
\<close>

theorem parse_verification_response_outcomes:
  "((\<exists>v. parse_verification_response loads text = Inr v) \<longleftrightarrow>
      (\<forall>e. loads (strip_fence text) = Inl e \<longrightarrow> e = JSONDecodeError))
   \<and> (\<forall>e. loads (strip_fence text) = Inl e \<and> e \<noteq> JSONDecodeError \<longrightarrow>
      parse_verification_response loads text = Inl e)
   \<and> (loads (strip_fence text) = Inl JSONDecodeError \<longrightarrow>
      parse_verification_response loads text = Inr default_verification)
   \<and> (\<forall>payload. loads (strip_fence text) = Inr payload \<longrightarrow>
      parse_verification_response loads text = Inr payload)
   \<and> dict_get default_verification ''claims'' JNull = Inr (JArr [])
   \<and> dict_get default_verification ''confidence'' JNull = Inr (JFloat (Finite (1 / 2)))
   \<and> dict_get default_verification ''summary'' JNull =
       Inr (JStr ''Could not parse verification response'')
   \<and> (\<not> startswith (strip text) ''```'' \<longrightarrow> strip_fence text = strip text)
   \<and> (\<forall>lang body. CHR 0x0A \<notin> set lang
        \<and> text = ''```'' @ lang @ CHR 0x0A # body @ CHR 0x0A # ''```'' \<longrightarrow>
      strip_fence text = body)"
proof -
  have "(\<exists>v. parse_verification_response loads text = Inr v) \<longleftrightarrow>
      (\<forall>e. loads (strip_fence text) = Inl e \<longrightarrow> e = JSONDecodeError)"
    by (cases "loads (strip_fence text)") (auto simp: parse_verification_response_def)
  moreover have "\<forall>lang body. CHR 0x0A \<notin> set lang
        \<and> text = ''```'' @ lang @ CHR 0x0A # body @ CHR 0x0A # ''```'' \<longrightarrow>
      strip_fence text = body"
    using strip_fence_fenced by blast
  moreover have "\<not> startswith (strip text) ''```'' \<longrightarrow> strip_fence text = strip text"
    by (simp add: strip_fence_def)
  ultimately show ?thesis
    by (simp add: parse_verification_response_def default_verification_def float_0_5_def)
qed

theorem parse_verification_response_outcomes_witness:
  "parse_verification_response (json_loads world_no_confidence) ''not json'' =
     Inr default_verification
   \<and> parse_verification_response (json_loads world_no_confidence) ''```json\<newline>{}\<newline>```'' =
     Inr (JObj [])
   \<and> parse_verification_response (json_loads world_no_confidence) '' {} '' = Inr (JObj [])
   \<and> parse_verification_response (\<lambda>text. Inl ValueError) ''12345'' = Inl ValueError"
proof -
  have a: "strip_fence ''not json'' = ''not json''" by code_simp
  have b: "strip_fence ''```json\<newline>{}\<newline>```'' = ''{}''" by code_simp
  have c: "strip_fence '' {} '' = ''{}''" by code_simp
  show ?thesis
    using parse_verification_response_outcomes [of "json_loads world_no_confidence" "''not json''"]
      parse_verification_response_outcomes [of "json_loads world_no_confidence" "''```json\<newline>{}\<newline>```''"]
      parse_verification_response_outcomes [of "json_loads world_no_confidence" "'' {} ''"]
      parse_verification_response_outcomes [of "\<lambda>text. Inl ValueError" "''12345''"]
    unfolding a b c by (simp add: world_no_confidence_def)
qed

text \<open>A reply that opens a fence and never closes it loses its payload.\<close>

lemma strip_fence_unclosed: "strip_fence ''```json\<newline>{}'' = []"
  by code_simp

section \<open>Properties of the Router\<close>

lemma upper_valid: "v \<in> set valid_types \<Longrightarrow> upper v = v"
proof -
  have "upper ''LOOKUP'' = ''LOOKUP''" "upper ''COMPARE'' = ''COMPARE''"
    "upper ''CHECKLIST'' = ''CHECKLIST''" "upper ''EXPLAIN'' = ''EXPLAIN''"
    by (simp_all add: upper_def upper_char_def ascii_uppercase_def ascii_lowercase_def)
  then show "v \<in> set valid_types \<Longrightarrow> upper v = v"
    by (auto simp: valid_types_def)
qed

lemma valid_ends:
  "v \<in> set valid_types \<Longrightarrow> v \<noteq> [] \<and> \<not> isspace (hd v) \<and> \<not> isspace (last v)"
  unfolding valid_types_def isspace_def whitespace_def by auto

lemma router_agent_query_type:
  "query_type (router_agent content s) =
     (if upper (strip content) \<in> set valid_types then upper (strip content) else ''EXPLAIN'')"
  by (simp add: router_agent_def Let_def)

lemma label_ends:
  assumes "v \<in> set valid_types" "upper label = v"
  shows "label \<noteq> [] \<and> \<not> isspace (hd label) \<and> \<not> isspace (last label)"
proof -
  have ne: "label \<noteq> []" using assms valid_ends [of v] by (auto simp: upper_def)
  have h: "hd v = upper_char (hd label)" "last v = upper_char (last label)"
    using assms(2) ne by (auto simp: upper_def hd_map last_map)
  show ?thesis
    using ne h valid_ends [OF assms(1)] upper_char_space by metis
qed

text \<open>
  C7. Whatever text the classification returns, the Router sets a valid intent: the
  text stripped and upper-cased when that is one of the four labels, \<open>EXPLAIN\<close>
  otherwise. A label that differs from a valid intent only in case, with whitespace
  around it, is accepted as that intent.
\<close>

theorem router_intent_valid:
  "query_type (router_agent content s) \<in> set valid_types
   \<and> query_type (router_agent content s) =
       (if upper (strip content) \<in> set valid_types then upper (strip content) else ''EXPLAIN'')
   \<and> (v \<in> set valid_types \<and> lower label = lower v
        \<and> set pre \<subseteq> set whitespace \<and> set post \<subseteq> set whitespace \<longrightarrow>
      query_type (router_agent (pre @ label @ post) s) = v)
   \<and> target_regulations (router_agent content s) = detect_regulations (query s)"
proof -
  have valid: "query_type (router_agent content s) \<in> set valid_types"
    by (simp add: router_agent_query_type) (simp add: valid_types_def)
  have accepted: "query_type (router_agent (pre @ label @ post) s) = v"
    if a: "v \<in> set valid_types" "lower label = lower v"
      "set pre \<subseteq> set whitespace" "set post \<subseteq> set whitespace"
  proof -
    have u: "upper label = v"
      using a(1,2) upper_of_lower [of label] upper_of_lower [of v] upper_valid by simp
    have "strip (pre @ label @ post) = label"
      using label_ends [OF a(1) u] a(3,4) by (intro strip_padded) simp_all
    then show ?thesis using u a(1) by (simp add: router_agent_query_type)
  qed
  show ?thesis
    using valid accepted by (simp add: router_agent_query_type) (simp add: router_agent_def Let_def)
qed

theorem router_intent_valid_witness:
  "query_type (router_agent ''  Compare\<newline>'' (initial_state ''How do SR 11-7 and NIST differ?'')) = ''COMPARE''
   \<and> query_type (router_agent ''MAYBE'' (initial_state ''How do SR 11-7 and NIST differ?'')) = ''EXPLAIN''
   \<and> query_type (router_agent ''INVALID_TYPE'' (initial_state ''Some random question'')) = ''EXPLAIN''"
proof -
  have a: "''COMPARE'' \<in> set valid_types \<and> lower ''Compare'' = lower ''COMPARE''
      \<and> set ''  '' \<subseteq> set whitespace \<and> set ''\<newline>'' \<subseteq> set whitespace"
    by code_simp
  have b: "upper (strip ''MAYBE'') \<notin> set valid_types" by code_simp
  have c: "upper (strip ''INVALID_TYPE'') \<notin> set valid_types" by code_simp
  have "query_type (router_agent (''  '' @ ''Compare'' @ ''\<newline>'')
          (initial_state ''How do SR 11-7 and NIST differ?'')) = ''COMPARE''"
    using router_intent_valid [of _ _ "''COMPARE''" "''Compare''" "''  ''" "''\<newline>''"] a
    by blast
  moreover have "query_type (router_agent ''MAYBE''
          (initial_state ''How do SR 11-7 and NIST differ?'')) =
        (if upper (strip ''MAYBE'') \<in> set valid_types then upper (strip ''MAYBE'')
         else ''EXPLAIN'')"
    using router_intent_valid [of "''MAYBE''"] by blast
  moreover have "query_type (router_agent ''INVALID_TYPE''
          (initial_state ''Some random question'')) =
        (if upper (strip ''INVALID_TYPE'') \<in> set valid_types
         then upper (strip ''INVALID_TYPE'') else ''EXPLAIN'')"
    using router_intent_valid [of "''INVALID_TYPE''"] by blast
  ultimately show ?thesis using b c by (simp only: if_False append.simps)
qed

section \<open>Properties of the run\<close>

lemma retriever_agent_retry_count:
  "retry_count (fst (retriever_agent search s)) = retry_count s + 1"
  by (simp add: retriever_agent_def split: prod.splits)

lemma retriever_agent_keeps:
  "query_type (fst (retriever_agent search s)) = query_type s
   \<and> target_regulations (fst (retriever_agent search s)) = target_regulations s"
  by (simp add: retriever_agent_def split: prod.splits)

lemma compliance_checker_agent_keeps:
  "compliance_checker_agent loads content s = Inr s' \<Longrightarrow>
     retry_count s' = retry_count s \<and> query_type s' = query_type s
     \<and> target_regulations s' = target_regulations s"
  by (auto simp: compliance_checker_agent_def split: sum.splits)

lemma should_retry_labels: "should_retry s = Inr label \<Longrightarrow> label = ''retry'' \<or> label = ''end''"
  by (auto simp: should_retry_def split: sum.splits if_splits)

lemma should_retry_bound: "should_retry s = Inr ''retry'' \<Longrightarrow> retry_count s \<le> 2"
  by (auto simp: should_retry_def split: sum.splits if_splits)

lemma next_after_checker:
  "next_node Compliance_checker s = Inr n \<Longrightarrow> (n = Retriever \<and> retry_count s \<le> 2) \<or> n = END"
proof -
  assume a: "next_node Compliance_checker s = Inr n"
  then obtain label where l: "should_retry s = Inr label"
    by (cases "should_retry s") auto
  from should_retry_labels [OF l] show ?thesis
  proof
    assume "label = ''retry''"
    then show ?thesis using a l should_retry_bound [of s] by auto
  next
    assume "label = ''end''"
    then show ?thesis using a l by auto
  qed
qed

lemma invoke_from_END: "invoke_from w (Suc fuel) t END s = ([], Some (Inr s))"
  by simp

lemma invoke_pass:
  "invoke_from w (Suc (Suc (Suc fuel))) t Retriever s =
     (let s1 = fst (retriever_agent (similarity_search w t) s);
          s2 = synthesizer_agent (llm w (Suc t)) s1
      in case compliance_checker_agent (json_loads w) (llm w (Suc (Suc t))) s2 of
           Inl e \<Rightarrow> ([(Retriever, s1), (Synthesizer, s2)], Some (Inl e))
         | Inr s3 \<Rightarrow>
             (case next_node Compliance_checker s3 of
                Inl e \<Rightarrow>
                  ([(Retriever, s1), (Synthesizer, s2), (Compliance_checker, s3)], Some (Inl e))
              | Inr n' \<Rightarrow>
                  (case invoke_from w fuel (Suc (Suc (Suc t))) n' s3 of
                     (trace, outcome) \<Rightarrow>
                       ((Retriever, s1) # (Synthesizer, s2) # (Compliance_checker, s3) # trace,
                        outcome))))"
  by (simp add: Let_def split: sum.splits prod.splits)

lemma invoke_router:
  "invoke_from w (Suc fuel) t Router s =
     (case invoke_from w fuel (Suc t) Retriever (router_agent (llm w t) s) of
        (trace, outcome) \<Rightarrow> ((Router, router_agent (llm w t) s) # trace, outcome))"
  by simp

lemma passes_bounded:
  "0 < k \<Longrightarrow> 3 - int k \<le> retry_count s \<Longrightarrow>
     \<exists>trace outcome. invoke_from w (3 * k + 1 + extra) t Retriever s = (trace, Some outcome)
       \<and> retrievals trace \<le> k \<and> length trace \<le> 3 * k"
proof (induction k arbitrary: s t)
  case 0
  then show ?case by simp
next
  case (Suc k)
  let ?s1 = "fst (retriever_agent (similarity_search w t) s)"
  let ?s2 = "synthesizer_agent (llm w (Suc t)) ?s1"
  have fuel: "3 * Suc k + 1 + extra = Suc (Suc (Suc (3 * k + 1 + extra)))" by simp
  have rc2: "retry_count ?s2 = retry_count s + 1"
    by (simp add: synthesizer_agent_def retriever_agent_retry_count)
  show ?case
  proof (cases "compliance_checker_agent (json_loads w) (llm w (Suc (Suc t))) ?s2")
    case (Inl e)
    then show ?thesis
      unfolding fuel invoke_pass by (simp add: retrievals_def Let_def)
  next
    case (Inr s3)
    have rc3: "retry_count s3 = retry_count s + 1"
      using compliance_checker_agent_keeps [OF Inr] rc2 by simp
    show ?thesis
    proof (cases "next_node Compliance_checker s3")
      case (Inl e)
      then show ?thesis
        unfolding fuel invoke_pass using Inr by (simp add: retrievals_def Let_def)
    next
      case nxt: (Inr n')
      from next_after_checker [OF nxt] show ?thesis
      proof
        assume a: "n' = Retriever \<and> retry_count s3 \<le> 2"
        then have "retry_count s \<le> 1" using rc3 by simp
        with Suc.prems have k: "0 < k" by (cases k) auto
        have "3 - int k \<le> retry_count s3" using Suc.prems rc3 by simp
        from Suc.IH [OF k this, of "Suc (Suc (Suc t))"]
        obtain trace outcome where
          r: "invoke_from w (3 * k + 1 + extra) (Suc (Suc (Suc t))) Retriever s3 = (trace, Some outcome)"
            "retrievals trace \<le> k" "length trace \<le> 3 * k"
          by blast
        show ?thesis
          unfolding fuel invoke_pass using Inr nxt a r by (simp add: retrievals_def Let_def)
      next
        assume "n' = END"
        then show ?thesis
          unfolding fuel invoke_pass using Inr nxt by (simp add: retrievals_def Let_def)
      qed
    qed
  qed
qed

text \<open>
  C2. For every query and every behaviour of the language model, the vector store and
  \<open>json.loads\<close>, a run of the graph from the Router on the initial state ends, with a
  final state or an exception, after at most 10 nodes, of which at most 3 are the
  Retriever; so \<open>ask_question\<close> returns or raises. Each run of the Retriever adds exactly 1
  to \<open>retry_count\<close>.
\<close>

theorem pipeline_terminates:
  "(\<exists>trace outcome.
       invoke_from w (11 + extra) 0 Router (initial_state q) = (trace, Some outcome)
       \<and> retrievals trace \<le> 3 \<and> length trace \<le> 10)
   \<and> (\<exists>r. ask_question w (11 + extra) q = Some r)
   \<and> retry_count (fst (retriever_agent search s)) = retry_count s + 1"
proof -
  let ?s0 = "router_agent (llm w 0) (initial_state q)"
  have "retry_count ?s0 = 0"
    by (simp add: router_agent_def initial_state_def Let_def)
  with passes_bounded [of 3 ?s0 w extra "Suc 0"]
  obtain trace outcome where
    r: "invoke_from w (10 + extra) (Suc 0) Retriever ?s0 = (trace, Some outcome)"
      "retrievals trace \<le> 3" "length trace \<le> 9"
    by auto
  have fuel: "11 + extra = Suc (10 + extra)" by simp
  have "invoke_from w (Suc (10 + extra)) 0 Router (initial_state q) =
          ((Router, ?s0) # trace, Some outcome)"
    by (subst invoke_router) (simp add: r(1))
  then have run: "invoke_from w (11 + extra) 0 Router (initial_state q) =
          ((Router, ?s0) # trace, Some outcome)"
    by (simp only: fuel)
  have "\<exists>r. ask_question w (11 + extra) q = Some r"
    unfolding ask_question_def run by (cases outcome) simp_all
  then show ?thesis
    using run r(2,3) by (simp add: retrievals_def retriever_agent_retry_count)
qed

text \<open>The bound is reached: when no verification reply decodes, the Retriever runs 3 times.\<close>

lemma three_passes_reached:
  "retrievals (fst (invoke_from world_always_low 11 0 Router
      (initial_state ''How do SR 11-7 and NIST differ?''))) = 3
   \<and> map (\<lambda>c. retry_count (snd c)) (filter (\<lambda>c. fst c = Retriever)
        (fst (invoke_from world_always_low 11 0 Router
          (initial_state ''How do SR 11-7 and NIST differ?'')))) = [1, 2, 3]"
  by code_simp

lemma run_node_keeps:
  "n \<noteq> Router \<Longrightarrow> run_node w t n s = Inr s' \<Longrightarrow>
     query_type s' = query_type s \<and> target_regulations s' = target_regulations s"
  by (cases n)
    (auto simp: retriever_agent_keeps synthesizer_agent_def dest: compliance_checker_agent_keeps)

lemma next_node_not_Router: "next_node n s = Inr n' \<Longrightarrow> n' \<noteq> Router"
proof (cases n)
  case Compliance_checker
  assume "next_node n s = Inr n'"
  with Compliance_checker next_after_checker [of s n'] show ?thesis by auto
qed auto

lemma no_Router_after:
  "n \<noteq> Router \<Longrightarrow> invoke_from w fuel t n s = (trace, outcome) \<Longrightarrow>
     list_all (\<lambda>c. fst c \<noteq> Router \<and> query_type (snd c) = query_type s
                 \<and> target_regulations (snd c) = target_regulations s) trace
     \<and> (case outcome of
          Some (Inr final) \<Rightarrow>
            query_type final = query_type s \<and> target_regulations final = target_regulations s
        | _ \<Rightarrow> True)"
proof (induction fuel arbitrary: t n s trace outcome)
  case 0
  then show ?case by simp
next
  case (Suc fuel)
  show ?case
  proof (cases "n = END")
    case True
    with Suc.prems show ?thesis by auto
  next
    case notEND: False
    show ?thesis
    proof (cases "run_node w t n s")
      case (Inl e)
      with Suc.prems notEND show ?thesis by auto
    next
      case (Inr s')
      note keep = run_node_keeps [OF Suc.prems(1) Inr]
      show ?thesis
      proof (cases "next_node n s'")
        case (Inl e)
        with Suc.prems notEND Inr keep show ?thesis using Suc.prems(1) by auto
      next
        case nxt: (Inr n')
        obtain trace' outcome' where
          rest: "invoke_from w fuel (Suc t) n' s' = (trace', outcome')"
          by fastforce
        have eq: "trace = (n, s') # trace'" "outcome = outcome'"
          using Suc.prems(2) notEND Inr nxt rest by simp_all
        from Suc.IH [OF next_node_not_Router [OF nxt] rest] keep eq Suc.prems(1)
        show ?thesis by (auto split: option.splits sum.splits)
      qed
    qed
  qed
qed

text \<open>
  C8. In a run from the initial state the Router is the first node and runs exactly
  once: no edge of the graph leads to it, the retry edge leads to the Retriever. The
  intent and the detected regulations it sets are those of every later state of the
  run, across all retry passes, and of the final state.
\<close>

theorem router_runs_once:
  "(case invoke_from w (Suc fuel) 0 Router (initial_state q) of
      (trace, outcome) \<Rightarrow>
        take 1 trace = [(Router, router_agent (llm w 0) (initial_state q))]
        \<and> length (filter (\<lambda>c. fst c = Router) trace) = 1
        \<and> list_all (\<lambda>c. query_type (snd c) = query_type (router_agent (llm w 0) (initial_state q))
                      \<and> target_regulations (snd c) = detect_regulations q) trace
        \<and> (case outcome of
             Some (Inr final) \<Rightarrow>
               query_type final = query_type (router_agent (llm w 0) (initial_state q))
               \<and> target_regulations final = detect_regulations q
           | _ \<Rightarrow> True))
   \<and> (\<forall>n s n'. next_node n s = Inr n' \<longrightarrow> n' \<noteq> Router)"
proof -
  let ?s0 = "router_agent (llm w 0) (initial_state q)"
  obtain trace' outcome where
    rest: "invoke_from w fuel (Suc 0) Retriever ?s0 = (trace', outcome)"
    by fastforce
  have t0: "target_regulations ?s0 = detect_regulations q"
    by (simp add: router_agent_def initial_state_def Let_def)
  have run: "invoke_from w (Suc fuel) 0 Router (initial_state q) = ((Router, ?s0) # trace', outcome)"
    by (subst invoke_router) (simp add: rest)
  from no_Router_after [OF _ rest]
  have after: "list_all (\<lambda>c. fst c \<noteq> Router \<and> query_type (snd c) = query_type ?s0
                 \<and> target_regulations (snd c) = target_regulations ?s0) trace'"
    and final: "(case outcome of
          Some (Inr final) \<Rightarrow>
            query_type final = query_type ?s0 \<and> target_regulations final = target_regulations ?s0
        | _ \<Rightarrow> True)"
    by simp_all
  have none: "filter (\<lambda>c. fst c = Router) trace' = []"
    using after by (auto simp: list_all_iff filter_empty_conv)
  have same: "list_all (\<lambda>c. query_type (snd c) = query_type ?s0
                      \<and> target_regulations (snd c) = detect_regulations q) trace'"
    using after by (auto simp: list_all_iff t0)
  show ?thesis
    unfolding run using none same final next_node_not_Router
    by (auto simp: t0 split: option.splits sum.splits)
qed

theorem router_runs_once_witness:
  "length (filter (\<lambda>c. fst c = Router)
      (fst (invoke_from world_always_low (Suc 10) 0 Router
        (initial_state ''How do SR 11-7 and NIST differ?'')))) = 1
   \<and> list_all (\<lambda>c. query_type (snd c) = ''COMPARE''
          \<and> target_regulations (snd c) = [''SR 11-7'', ''NIST AI RMF''])
      (fst (invoke_from world_always_low (Suc 10) 0 Router
        (initial_state ''How do SR 11-7 and NIST differ?'')))
   \<and> next_node Compliance_checker s_low = Inr Retriever \<and> Retriever \<noteq> Router"
proof -
  have a: "query_type (router_agent (llm world_always_low 0)
      (initial_state ''How do SR 11-7 and NIST differ?'')) = ''COMPARE''"
    by code_simp
  have b: "detect_regulations ''How do SR 11-7 and NIST differ?'' = [''SR 11-7'', ''NIST AI RMF'']"
    by code_simp
  have c: "next_node Compliance_checker s_low = Inr Retriever"
    by code_simp
  obtain trace outcome where
    r: "invoke_from world_always_low (Suc 10) 0 Router
          (initial_state ''How do SR 11-7 and NIST differ?'') = (trace, outcome)"
    by fastforce
  from router_runs_once [where w = world_always_low and fuel = 10
      and q = "''How do SR 11-7 and NIST differ?''"]
  show ?thesis
    unfolding r a b using c by simp
qed

end
